theory Spec2Isabelle
  imports Complex_Main "HOL-Library.Multiset"
begin

section \<open>Values, errors and Python slicing\<close>

text \<open>
  The scripts compute on numpy arrays of floating-point numbers. An array is modelled as a
  list; an entry is either a real number or numpy's \<open>nan\<close>, which is what the mean of an
  empty slice and a remainder by zero produce. The infinities of the floating-point format
  are not modelled, and the arithmetic \<open>vadd\<close>, \<open>vsub\<close>, \<open>vmul\<close> on \<open>Val\<close> entries is
  exact. The properties below that compare a result with the same operations on the same
  entries do not depend on rounding; the round-trip identity of the differenced series
  does, and the rounding of the format is defined for it in its own section.
\<close>

datatype npfloat = Val real | NaN

datatype py_error = ValueError | InvalidArgumentError

fun vadd :: "npfloat \<Rightarrow> npfloat \<Rightarrow> npfloat" where
  "vadd (Val a) (Val b) = Val (a + b)"
| "vadd _ _ = NaN"

fun vsub :: "npfloat \<Rightarrow> npfloat \<Rightarrow> npfloat" where
  "vsub (Val a) (Val b) = Val (a - b)"
| "vsub _ _ = NaN"

fun vmul :: "npfloat \<Rightarrow> npfloat \<Rightarrow> npfloat" where
  "vmul (Val a) (Val b) = Val (a * b)"
| "vmul _ _ = NaN"

text \<open>
  Python's \<open>xs[lo:hi]\<close>: a negative bound counts from the end, and every bound is clamped
  into \<open>[0, len(xs)]\<close>; a slice never raises. \<open>None\<close> is an omitted bound.
\<close>

definition norm_index :: "int \<Rightarrow> int \<Rightarrow> int" where
  "norm_index n i = (if i < 0 then max 0 (n + i) else min n i)"

definition slice :: "'a list \<Rightarrow> int option \<Rightarrow> int option \<Rightarrow> 'a list" where
  "slice xs lo hi =
     (let n = int (length xs);
          l = (case lo of None \<Rightarrow> 0 | Some i \<Rightarrow> norm_index n i);
          h = (case hi of None \<Rightarrow> n | Some j \<Rightarrow> norm_index n j)
      in take (nat (h - l)) (drop (nat l) xs))"

text \<open>\<open>range(n)\<close>: the integers \<open>0, ..., n - 1\<close>, none when \<open>n \<le> 0\<close>.\<close>

definition py_range :: "int \<Rightarrow> int list" where
  "py_range n = map int [0..<nat n]"

text \<open>
  \<open>a.mean()\<close> on a one-dimensional array: the sum divided by the number of entries;
  \<open>nan\<close> (with a warning, not an exception) on an empty array.
\<close>

definition np_sum :: "npfloat list \<Rightarrow> npfloat" where
  "np_sum xs = foldl vadd (Val 0) xs"

definition np_mean :: "npfloat list \<Rightarrow> npfloat" where
  "np_mean xs = (if xs = [] then NaN
                 else (case np_sum xs of NaN \<Rightarrow> NaN | Val s \<Rightarrow> Val (s / real (length xs))))"

section \<open>Forecasting.py: the moving-average forecast\<close>

text \<open>
  \<^verbatim>\<open>
  def moving_average_forecast(series, window_size):
      forecast = []
      for time in range(len(series) - window_size):
          forecast.append(series[time:time + window_size].mean())
      return np.array(forecast)
  \<close>
  The loop is a fold over the range, appending to the accumulator.
\<close>

definition moving_average_forecast :: "npfloat list \<Rightarrow> int \<Rightarrow> py_error + npfloat list" where
  "moving_average_forecast series window_size =
     Inr (fold (\<lambda>time forecast.
                  forecast @ [np_mean (slice series (Some time) (Some (time + window_size)))])
               (py_range (int (length series) - window_size)) [])"

section \<open>Forecasting.py: the baseline forecasts of the script\<close>

text \<open>
  Elementwise arithmetic on two arrays. numpy broadcasts an array of length one against the
  other operand and raises \<open>ValueError\<close> when the two lengths differ otherwise.
\<close>

definition np_binop ::
  "(npfloat \<Rightarrow> npfloat \<Rightarrow> npfloat) \<Rightarrow> npfloat list \<Rightarrow> npfloat list \<Rightarrow> py_error + npfloat list"
where
  "np_binop f xs ys =
     (if length xs = length ys then Inr (map2 f xs ys)
      else if length xs = 1 then Inr (map (f (hd xs)) ys)
      else if length ys = 1 then Inr (map (\<lambda>x. f x (hd ys)) xs)
      else Inl ValueError)"

text \<open>
  The script computes its forecasts at top level with the constants \<open>split_time = 1000\<close>,
  the period 365 and the windows 30, 50 and 10. The definitions below keep the expressions
  and take the split point, the period and the window of the differenced forecast as
  arguments; \<open>run_diff_moving_avg_plus_past\<close> is the expression with the script's constants.

  \<^verbatim>\<open>naive_forecast = series[split_time - 1:-1]\<close>
\<close>

definition naive_forecast :: "npfloat list \<Rightarrow> int \<Rightarrow> py_error + npfloat list" where
  "naive_forecast series split_time = Inr (slice series (Some (split_time - 1)) (Some (- 1)))"

text \<open>
  \<^verbatim>\<open>diff_series = (series[365:] - series[:-365])\<close>

  The elementwise subtraction is an argument of \<open>diff_series_with\<close>, so that the line can
  be read with the exact subtraction \<open>vsub\<close> (as \<open>diff_series\<close>, used by the forecasts
  below) and with the rounded subtraction of the array's floating-point format.
\<close>

definition diff_series_with ::
  "(npfloat \<Rightarrow> npfloat \<Rightarrow> npfloat) \<Rightarrow> npfloat list \<Rightarrow> int \<Rightarrow> py_error + npfloat list"
where
  "diff_series_with sub series period =
     np_binop sub (slice series (Some period) None) (slice series None (Some (- period)))"

definition diff_series :: "npfloat list \<Rightarrow> int \<Rightarrow> py_error + npfloat list" where
  "diff_series series period = diff_series_with vsub series period"

text \<open>\<^verbatim>\<open>diff_moving_avg = moving_average_forecast(diff_series, 50)[split_time - 365 - 50:]\<close>\<close>

definition diff_moving_avg :: "npfloat list \<Rightarrow> int \<Rightarrow> int \<Rightarrow> int \<Rightarrow> py_error + npfloat list" where
  "diff_moving_avg series split_time period w2 =
     (case diff_series series period of
        Inl e \<Rightarrow> Inl e
      | Inr d \<Rightarrow>
          (case moving_average_forecast d w2 of
             Inl e \<Rightarrow> Inl e
           | Inr m \<Rightarrow> Inr (slice m (Some (split_time - period - w2)) None)))"

text \<open>\<^verbatim>\<open>diff_moving_avg_plus_past = series[split_time - 365:-365] + diff_moving_avg\<close>\<close>

definition diff_moving_avg_plus_past ::
  "npfloat list \<Rightarrow> int \<Rightarrow> int \<Rightarrow> int \<Rightarrow> py_error + npfloat list"
where
  "diff_moving_avg_plus_past series split_time period w2 =
     (case diff_moving_avg series split_time period w2 of
        Inl e \<Rightarrow> Inl e
      | Inr dma \<Rightarrow>
          np_binop vadd (slice series (Some (split_time - period)) (Some (- period))) dma)"

definition run_diff_moving_avg_plus_past :: "npfloat list \<Rightarrow> py_error + npfloat list" where
  "run_diff_moving_avg_plus_past series = diff_moving_avg_plus_past series 1000 365 50"

text \<open>
  \<^verbatim>\<open>diff_moving_avg_plus_smooth_past =
      moving_average_forecast(series[split_time - 370:-360], 10) + diff_moving_avg\<close>
\<close>

definition diff_moving_avg_plus_smooth_past ::
  "npfloat list \<Rightarrow> int \<Rightarrow> py_error + npfloat list"
where
  "diff_moving_avg_plus_smooth_past series split_time =
     (case diff_moving_avg series split_time 365 50 of
        Inl e \<Rightarrow> Inl e
      | Inr dma \<Rightarrow>
          (case moving_average_forecast
                  (slice series (Some (split_time - 370)) (Some (- 360))) 10 of
             Inl e \<Rightarrow> Inl e
           | Inr smooth \<Rightarrow> np_binop vadd smooth dma))"

section \<open>The signal generator\<close>







text \<open>
  The pseudo-random generator is numpy's and not part of the scripts. It is a parameter of
  the model: \<open>seed_state\<close> builds a generator state from a seed the library accepts and
  \<open>gauss\<close> draws one standard-normal sample and advances the state. The process has one
  global generator (the one \<open>np.random.seed\<close> resets) and a source of operating-system
  entropy, which seeds a \<open>RandomState\<close> constructed without a seed.
\<close>

record ('s, 'g) rng_lib =
  seed_state :: "'s \<Rightarrow> 'g"
  gauss :: "'g \<Rightarrow> real \<times> 'g"

record ('s, 'g) world =
  global_rng :: 'g
  entropy_pool :: "nat \<Rightarrow> 's"
  entropy_used :: nat

definition RandomState ::
  "('s, 'g) rng_lib \<Rightarrow> 's option \<Rightarrow> ('s, 'g) world \<Rightarrow> 'g \<times> ('s, 'g) world"
where
  "RandomState lib seed w =
     (case seed of
        Some s \<Rightarrow> (seed_state lib s, w)
      | None \<Rightarrow> (seed_state lib (entropy_pool w (entropy_used w)),
                 w\<lparr>entropy_used := Suc (entropy_used w)\<rparr>))"

fun randn :: "('s, 'g) rng_lib \<Rightarrow> nat \<Rightarrow> 'g \<Rightarrow> real list \<times> 'g" where
  "randn lib 0 g = ([], g)"
| "randn lib (Suc n) g =
     (case gauss lib g of (x, g1) \<Rightarrow> (case randn lib n g1 of (xs, g2) \<Rightarrow> (x # xs, g2)))"

text \<open>
  \<^verbatim>\<open>
  def noise(time, noise_level=1, seed=None):
      rnd = np.random.RandomState(seed)
      return rnd.randn(len(time)) * noise_level
  \<close>
  The generator \<open>rnd\<close> is local to the call and dropped when it returns.
\<close>

definition noise ::
  "('s, 'g) rng_lib \<Rightarrow> npfloat list \<Rightarrow> real \<Rightarrow> 's option \<Rightarrow> ('s, 'g) world
     \<Rightarrow> npfloat list \<times> ('s, 'g) world"
where
  "noise lib time noise_level seed w =
     (case RandomState lib seed w of
        (rnd, w1) \<Rightarrow>
          (case randn lib (length time) rnd of
             (xs, rnd1) \<Rightarrow> (map (\<lambda>x. vmul (Val x) (Val noise_level)) xs, w1)))"

text \<open>
  A small generator for examples: the state is a counter, seeded with the seed itself, and
  a draw returns the counter and increments it. \<open>idle_world\<close> is a process whose global
  generator has state 7 and whose entropy source hands out 0, 1, 2, ...
\<close>

definition counting_rng :: "(nat, nat) rng_lib" where
  "counting_rng = \<lparr>seed_state = (\<lambda>s. s), gauss = (\<lambda>g. (real g, Suc g))\<rparr>"

definition idle_world :: "(nat, nat) world" where
  "idle_world = \<lparr>global_rng = 7, entropy_pool = (\<lambda>n. n), entropy_used = 0\<rparr>"

text \<open>
  The operations on the global generator: \<open>np.random.seed(s)\<close>, which CNNLSTM.py calls
  before building its datasets, and a draw of \<open>n\<close> samples from the global generator.
\<close>

definition np_random_seed :: "('s, 'g) rng_lib \<Rightarrow> 's \<Rightarrow> ('s, 'g) world \<Rightarrow> ('s, 'g) world" where
  "np_random_seed lib s w = w\<lparr>global_rng := seed_state lib s\<rparr>"

definition np_random_randn ::
  "('s, 'g) rng_lib \<Rightarrow> nat \<Rightarrow> ('s, 'g) world \<Rightarrow> real list \<times> ('s, 'g) world"
where
  "np_random_randn lib n w =
     (case randn lib n (global_rng w) of (xs, g) \<Rightarrow> (xs, w\<lparr>global_rng := g\<rparr>))"

text \<open>
  The series of both scripts, with the length, the baseline, the slope, the period, the
  amplitude, the noise level and the seed as arguments (the scripts fix them to
  \<open>4 * 365 + 1\<close>, 10, 0.05, 365, 40, 5 and 42):
  \<^verbatim>\<open>
  time = np.arange(4 * 365 + 1, dtype="float32")
  series = baseline + trend(time, slope) + seasonality(time, period=365, amplitude=amplitude)
  series += noise(time, noise_level, seed=42)
  \<close>
\<close>

definition np_arange :: "nat \<Rightarrow> npfloat list" where
  "np_arange n = map (\<lambda>k. Val (real k)) [0..<n]"



section \<open>CNNLSTM.py: the windowed training set\<close>

text \<open>
  The dataset operations are TensorFlow's, not the script's. A dataset is modelled here as
  the finite list of its elements in iteration order, each operation as the documented
  effect on that list, and an error of the library as \<open>InvalidArgumentError\<close>.

  \<open>tf.expand_dims(series, axis=-1)\<close> wraps every sample into a vector of length one, and
  \<open>from_tensor_slices\<close> makes the rows of a tensor the elements of a dataset.
\<close>

definition expand_dims :: "'a list \<Rightarrow> 'a list list" where
  "expand_dims series = map (\<lambda>x. [x]) series"

definition from_tensor_slices :: "'a list \<Rightarrow> 'a list" where
  "from_tensor_slices tensor = tensor"

text \<open>
  \<open>dataset.window(sz, shift=1, drop_remainder=True)\<close>: one window of \<open>sz\<close> consecutive
  elements per start index, in order, keeping only the windows that have all \<open>sz\<close> elements.
\<close>

definition ds_window :: "int \<Rightarrow> 'a list \<Rightarrow> py_error + 'a list list" where
  "ds_window sz ds =
     (if sz \<le> 0 then Inl InvalidArgumentError
      else Inr (map (\<lambda>j. take (nat sz) (drop j ds)) [0..<Suc (length ds) - nat sz]))"

text \<open>
  \<open>dataset.batch(n)\<close> groups consecutive elements into batches of \<open>n\<close>; the last batch may be
  shorter (\<open>drop_remainder\<close> is false by default).
\<close>

function chunks :: "nat \<Rightarrow> 'a list \<Rightarrow> 'a list list" where
  "chunks n xs = (if n = 0 \<or> xs = [] then [] else take n xs # chunks n (drop n xs))"
  by pat_completeness auto
termination
  by (relation "measure (\<lambda>(n, xs). length xs)") auto

declare chunks.simps [simp del]

definition ds_batch :: "int \<Rightarrow> 'a list \<Rightarrow> py_error + 'a list list" where
  "ds_batch batch_size ds =
     (if batch_size \<le> 0 then Inl InvalidArgumentError else Inr (chunks (nat batch_size) ds))"

text \<open>\<open>dataset.flat_map(f)\<close> concatenates the datasets that \<open>f\<close> returns, in order.\<close>

fun ds_flat_map :: "('a \<Rightarrow> py_error + 'b list) \<Rightarrow> 'a list \<Rightarrow> py_error + 'b list" where
  "ds_flat_map f [] = Inr []"
| "ds_flat_map f (x # xs) =
     (case f x of
        Inl e \<Rightarrow> Inl e
      | Inr ys \<Rightarrow> (case ds_flat_map f xs of Inl e \<Rightarrow> Inl e | Inr zs \<Rightarrow> Inr (ys @ zs)))"

text \<open>
  \<open>dataset.shuffle(buffer_size)\<close> fills a buffer with the first \<open>buffer_size\<close> elements and
  then repeatedly emits an element of the buffer chosen at random, replacing it with the
  next element of the input while there is one. The random choices are the argument
  \<open>pick\<close>: the choice at step \<open>k\<close> is position \<open>pick k mod length buf\<close> of the buffer.
\<close>

function shuffle_run :: "(nat \<Rightarrow> nat) \<Rightarrow> nat \<Rightarrow> 'a list \<Rightarrow> 'a list \<Rightarrow> 'a list" where
  "shuffle_run pick k buf rest =
     (if buf = [] then []
      else (let i = pick k mod length buf
            in buf ! i #
               (case rest of
                  [] \<Rightarrow> shuffle_run pick (Suc k) (take i buf @ drop (Suc i) buf) []
                | x # xs \<Rightarrow> shuffle_run pick (Suc k) (buf[i := x]) xs)))"
  by pat_completeness auto
termination
proof (relation "measure (\<lambda>(pick, k, buf, rest). length buf + length rest)")
  show "wf (measure (\<lambda>(pick, k, buf, rest). length buf + length rest))"
    by simp
next
  fix pick :: "nat \<Rightarrow> nat" and k and buf rest :: "'a list" and i
  assume ne: "buf \<noteq> []" and i: "i = pick k mod length buf" and "rest = []"
  from ne i have "i < length buf" by simp
  then have "length (take i buf @ drop (Suc i) buf) < length buf" by simp
  then show "((pick, Suc k, take i buf @ drop (Suc i) buf, []), (pick, k, buf, rest))
              \<in> measure (\<lambda>(pick, k, buf, rest). length buf + length rest)"
    by simp
next
  fix pick :: "nat \<Rightarrow> nat" and k and buf rest :: "'a list" and i x xs
  assume "buf \<noteq> []" and "i = pick k mod length buf" and "rest = x # xs"
  then show "((pick, Suc k, buf[i := x], xs), (pick, k, buf, rest))
              \<in> measure (\<lambda>(pick, k, buf, rest). length buf + length rest)"
    by simp
qed

declare shuffle_run.simps [simp del]

definition ds_shuffle :: "(nat \<Rightarrow> nat) \<Rightarrow> int \<Rightarrow> 'a list \<Rightarrow> py_error + 'a list" where
  "ds_shuffle pick buffer_size ds =
     (if buffer_size \<le> 0 then Inl InvalidArgumentError
      else Inr (shuffle_run pick 0 (take (nat buffer_size) ds) (drop (nat buffer_size) ds)))"

text \<open>\<open>dataset.prefetch(n)\<close> changes when elements are computed, not which.\<close>

definition prefetch :: "int \<Rightarrow> 'a list \<Rightarrow> 'a list" where
  "prefetch n ds = ds"

text \<open>
  \<^verbatim>\<open>
  def windowed_dataset(series, window_size, batch_size, shuffle_buffer):
      series = tf.expand_dims(series, axis=-1)
      dataset = tf.data.Dataset.from_tensor_slices(series)
      dataset = dataset.window(window_size + 1, shift=1, drop_remainder=True)
      dataset = dataset.flat_map(lambda window: window.batch(window_size + 1))
      dataset = dataset.shuffle(shuffle_buffer)
      dataset = dataset.map(lambda window: (window[:-1], window[1:]))
      dataset = dataset.batch(batch_size).prefetch(1)
      return dataset
  \<close>
  The result is the list of batches; a batch is a list of (input window, target window)
  pairs.
\<close>

definition windowed_dataset ::
  "(nat \<Rightarrow> nat) \<Rightarrow> 'a list \<Rightarrow> int \<Rightarrow> int \<Rightarrow> int
     \<Rightarrow> py_error + ('a list list \<times> 'a list list) list list"
where
  "windowed_dataset pick series window_size batch_size shuffle_buffer =
     (let series1 = expand_dims series;
          dataset = from_tensor_slices series1
      in case ds_window (window_size + 1) dataset of
           Inl e \<Rightarrow> Inl e
         | Inr dataset1 \<Rightarrow>
             (case ds_flat_map (\<lambda>window. ds_batch (window_size + 1) window) dataset1 of
                Inl e \<Rightarrow> Inl e
              | Inr dataset2 \<Rightarrow>
                  (case ds_shuffle pick shuffle_buffer dataset2 of
                     Inl e \<Rightarrow> Inl e
                   | Inr dataset3 \<Rightarrow>
                       (let dataset4 =
                              map (\<lambda>window. (slice window None (Some (- 1)),
                                              slice window (Some 1) None)) dataset3
                        in case ds_batch batch_size dataset4 of
                             Inl e \<Rightarrow> Inl e
                           | Inr dataset5 \<Rightarrow> Inr (prefetch 1 dataset5)))))"

section \<open>Rounded arithmetic of a binary floating-point format\<close>





section \<open>Facts about slices and the forecast loop\<close>

lemma fold_append_map: "fold (\<lambda>x acc. acc @ [f x]) xs ys = ys @ map f xs"
  by (induction xs arbitrary: ys) simp_all

lemma moving_average_forecast_map:
  "moving_average_forecast series w =
     Inr (map (\<lambda>time. np_mean (slice series (Some time) (Some (time + w))))
              (py_range (int (length series) - w)))"
  by (simp add: moving_average_forecast_def fold_append_map)

lemma slice_window:
  assumes "0 \<le> w" and "int i + w \<le> int (length xs)"
  shows "slice xs (Some (int i)) (Some (int i + w)) = take (nat w) (drop i xs)"
  using assms by (simp add: slice_def norm_index_def Let_def min_def)

lemma length_py_range: "length (py_range n) = nat n"
  by (simp add: py_range_def)

lemma nth_py_range: "i < nat n \<Longrightarrow> py_range n ! i = int i"
  by (simp add: py_range_def)

lemma np_mean_Vals:
  "xs \<noteq> [] \<Longrightarrow> np_mean (map Val xs) = Val (sum_list xs / real (length xs))"
proof -
  have "foldl vadd (Val a) (map Val xs) = Val (a + sum_list xs)" for a
    by (induction xs arbitrary: a) (simp_all add: add.assoc)
  then show "xs \<noteq> [] \<Longrightarrow> np_mean (map Val xs) = Val (sum_list xs / real (length xs))"
    by (simp add: np_mean_def np_sum_def)
qed

lemma slice_from: "0 \<le> a \<Longrightarrow> slice xs (Some a) None = drop (nat a) xs"
  by (simp add: slice_def norm_index_def Let_def min_def)

lemma slice_until_neg:
  "0 < p \<Longrightarrow> slice xs None (Some (- p)) = take (length xs - nat p) xs"
  by (auto simp add: slice_def norm_index_def Let_def max_def nat_diff_distrib')

lemma slice_between_neg:
  "0 \<le> a \<Longrightarrow> 0 < p \<Longrightarrow>
   slice xs (Some a) (Some (- p)) = take (length xs - nat p - nat a) (drop (nat a) xs)"
  by (auto simp add: slice_def norm_index_def Let_def max_def min_def nat_diff_distrib')

lemma np_mean_single: "np_mean [x] = x"
  by (cases x) (simp_all add: np_mean_def np_sum_def)

lemma np_binop_same_length:
  "length xs = length ys \<Longrightarrow> np_binop f xs ys = Inr (map2 f xs ys)"
  by (simp add: np_binop_def)

lemma moving_average_forecast_nat:
  assumes "0 < w"
  shows "moving_average_forecast d (int w) =
           Inr (map (\<lambda>j. np_mean (take w (drop j d))) [0..<length d - w])"
proof -
  have "map (\<lambda>time. np_mean (slice d (Some time) (Some (time + int w))))
            (py_range (int (length d) - int w))
        = map (\<lambda>j. np_mean (take w (drop j d))) [0..<length d - w]"
  proof (rule nth_equalityI)
    show "length (map (\<lambda>time. np_mean (slice d (Some time) (Some (time + int w))))
            (py_range (int (length d) - int w)))
          = length (map (\<lambda>j. np_mean (take w (drop j d))) [0..<length d - w])"
      by (simp add: length_py_range nat_diff_distrib')
  next
    fix i
    assume "i < length (map (\<lambda>time. np_mean (slice d (Some time) (Some (time + int w))))
            (py_range (int (length d) - int w)))"
    then have i: "i < length d - w"
      by (simp add: length_py_range nat_diff_distrib')
    then have "i < nat (int (length d) - int w)" and "int i + int w \<le> int (length d)"
      by simp_all
    then show "map (\<lambda>time. np_mean (slice d (Some time) (Some (time + int w))))
                 (py_range (int (length d) - int w)) ! i
               = map (\<lambda>j. np_mean (take w (drop j d))) [0..<length d - w] ! i"
      using i slice_window [of "int w" i d]
      by (simp add: length_py_range nth_py_range)
  qed
  then show ?thesis
    by (simp add: moving_average_forecast_map)
qed

lemma diff_series_nat:
  assumes "0 < p" and "p \<le> length series"
  shows "diff_series series (int p) =
           Inr (map (\<lambda>k. vsub (series ! (k + p)) (series ! k)) [0..<length series - p])"
proof -
  have a: "slice series (Some (int p)) None = drop p series"
    by (simp add: slice_from)
  have b: "slice series None (Some (- int p)) = take (length series - p) series"
    using assms by (simp add: slice_until_neg)
  have "map2 vsub (drop p series) (take (length series - p) series)
        = map (\<lambda>k. vsub (series ! (k + p)) (series ! k)) [0..<length series - p]"
    using assms by (intro nth_equalityI) (simp_all add: add.commute)
  then show ?thesis
    using assms by (simp add: diff_series_def diff_series_with_def a b np_binop_same_length)
qed

lemma take_drop_map_upt:
  "j + w \<le> n \<Longrightarrow> take w (drop j (map g [0..<n])) = map g [j..<j + w]"
  by (intro nth_equalityI) (simp_all add: add.commute)

lemma naive_forecast_nat:
  assumes "0 < s" and "s < length series"
  shows "naive_forecast series (int s) = Inr (take (length series - s) (drop (s - 1) series))"
proof -
  show ?thesis
    using assms by (simp add: naive_forecast_def slice_def norm_index_def Let_def nat_diff_distrib')
qed

lemma take_one_drop: "j < length xs \<Longrightarrow> take (Suc 0) (drop j xs) = [xs ! j]"
  by (simp add: take_Suc_conv_app_nth)

lemma moving_average_forecast_one:
  "moving_average_forecast series 1 = Inr (butlast series)"
proof -
  have "map (\<lambda>j. np_mean (take (Suc 0) (drop j series))) [0..<length series - 1] = butlast series"
    by (intro nth_equalityI) (simp_all add: nth_butlast take_one_drop np_mean_single)
  then show ?thesis
    using moving_average_forecast_nat [of 1 series] by simp
qed

lemma diff_moving_avg_nat:
  assumes "0 < p" and "0 < w" and "p + w \<le> s" and "s \<le> length series"
  shows "diff_moving_avg series (int s) (int p) (int w) =
           Inr (map (\<lambda>i. np_mean (map (\<lambda>t. vsub (series ! t) (series ! (t - p)))
                                      [s + i - w..<s + i]))
                    [0..<length series - s])"
proof -
  let ?T = "length series"
  let ?g = "\<lambda>k. vsub (series ! (k + p)) (series ! k)"
  let ?d = "map ?g [0..<?T - p]"
  let ?m = "map (\<lambda>j. np_mean (take w (drop j ?d))) [0..<?T - p - w]"
  have d: "diff_series series (int p) = Inr ?d"
    using assms by (simp add: diff_series_nat)
  have m: "moving_average_forecast ?d (int w) = Inr ?m"
    using assms by (simp add: moving_average_forecast_nat)
  have off: "int s - int p - int w = int (s - p - w)"
    using assms by linarith
  have sl: "slice ?m (Some (int s - int p - int w)) None = drop (s - p - w) ?m"
    unfolding off by (simp add: slice_from)
  have "drop (s - p - w) ?m
        = map (\<lambda>i. np_mean (map (\<lambda>t. vsub (series ! t) (series ! (t - p)))
                                 [s + i - w..<s + i]))
              [0..<?T - s]"
  proof (rule nth_equalityI)
    show "length (drop (s - p - w) ?m)
          = length (map (\<lambda>i. np_mean (map (\<lambda>t. vsub (series ! t) (series ! (t - p)))
                                 [s + i - w..<s + i])) [0..<?T - s])"
      using assms by simp
  next
    fix i
    assume "i < length (drop (s - p - w) ?m)"
    with assms have i: "i < ?T - s" by simp
    let ?j = "s - p - w + i"
    from i assms have j: "?j < ?T - p - w" and fit: "?j + w \<le> ?T - p" by linarith+
    have win: "take w (drop ?j ?d) = map ?g [?j..<?j + w]"
      using fit by (rule take_drop_map_upt)
    have shift: "map ?g [?j..<?j + w]
                 = map (\<lambda>t. vsub (series ! t) (series ! (t - p))) [s + i - w..<s + i]"
      using assms by (intro nth_equalityI) (simp_all add: add.commute)
    have "drop (s - p - w) ?m ! i = ?m ! ?j"
      using j by simp
    also have "\<dots> = np_mean (take w (drop ?j ?d))"
      using j by simp
    also have "\<dots> = np_mean (map (\<lambda>t. vsub (series ! t) (series ! (t - p))) [s + i - w..<s + i])"
      by (simp only: win shift)
    finally show "drop (s - p - w) ?m ! i
                  = map (\<lambda>i. np_mean (map (\<lambda>t. vsub (series ! t) (series ! (t - p)))
                                 [s + i - w..<s + i])) [0..<?T - s] ! i"
      using i by simp
  qed
  with d m sl show ?thesis
    by (simp add: diff_moving_avg_def)
qed

lemma diff_moving_avg_plus_past_nat:
  assumes "0 < p" and "0 < w" and "p + w \<le> s" and "s \<le> length series"
  shows "diff_moving_avg_plus_past series (int s) (int p) (int w) =
           Inr (map (\<lambda>i. vadd (series ! (s + i - p))
                              (np_mean (map (\<lambda>t. vsub (series ! t) (series ! (t - p)))
                                            [s + i - w..<s + i])))
                    [0..<length series - s])"
proof -
  let ?T = "length series"
  let ?avg = "\<lambda>i. np_mean (map (\<lambda>t. vsub (series ! t) (series ! (t - p))) [s + i - w..<s + i])"
  have dma: "diff_moving_avg series (int s) (int p) (int w) = Inr (map ?avg [0..<?T - s])"
    using assms by (rule diff_moving_avg_nat)
  have past: "slice series (Some (int s - int p)) (Some (- int p))
        = take (?T - s) (drop (s - p) series)"
    using assms by (simp add: slice_def norm_index_def Let_def nat_diff_distrib')
  have len: "length (take (?T - s) (drop (s - p) series)) = length (map ?avg [0..<?T - s])"
    using assms by simp
  have "map2 vadd (take (?T - s) (drop (s - p) series)) (map ?avg [0..<?T - s])
        = map (\<lambda>i. vadd (series ! (s + i - p)) (?avg i)) [0..<?T - s]"
    using assms by (intro nth_equalityI) (simp_all add: add.commute)
  with dma past len show ?thesis
    by (simp add: diff_moving_avg_plus_past_def np_binop_same_length del: length_take length_map)
qed

lemma np_mean_const: "xs \<noteq> [] \<Longrightarrow> np_mean (map (\<lambda>t. Val c) xs) = Val c"
proof -
  assume ne: "xs \<noteq> []"
  have m: "map (\<lambda>t. Val c) xs = map Val (map (\<lambda>t. c) xs)"
    by simp
  have s: "sum_list (map (\<lambda>t. c) xs) = real (length xs) * c"
    by (induction xs) (simp_all add: algebra_simps)
  have "np_mean (map Val (map (\<lambda>t. c) xs)) = Val c"
    using ne by (simp add: np_mean_Vals [of "map (\<lambda>t. c) xs"] s del: map_map)
  then show ?thesis by (simp only: m)
qed

text \<open>
  The smoothed variant (line 125) has the same length and the same averaged differences; what
  it adds back is the mean of the ten samples \<open>series[t - 370], ..., series[t - 361]\<close>
  around \<open>t - 365\<close>, where \<open>t = split_time + i\<close>.
\<close>

lemma diff_moving_avg_plus_smooth_past_nat:
  assumes "415 \<le> s" and "s \<le> length series"
  shows "diff_moving_avg_plus_smooth_past series (int s) =
           Inr (map (\<lambda>i. vadd (np_mean (map (\<lambda>t. series ! t) [s + i - 370..<s + i - 360]))
                              (np_mean (map (\<lambda>t. vsub (series ! t) (series ! (t - 365)))
                                            [s + i - 50..<s + i])))
                    [0..<length series - s])"
proof -
  let ?T = "length series"
  let ?avg = "\<lambda>i. np_mean (map (\<lambda>t. vsub (series ! t) (series ! (t - 365))) [s + i - 50..<s + i])"
  let ?past = "take (?T - s + 10) (drop (s - 370) series)"
  have "diff_moving_avg series (int s) (int 365) (int 50) = Inr (map ?avg [0..<?T - s])"
    using assms by (intro diff_moving_avg_nat) simp_all
  then have dma: "diff_moving_avg series (int s) 365 50 = Inr (map ?avg [0..<?T - s])"
    by simp
  have n: "nat (10 + (int (length series) - int s)) = ?T - s + 10"
    using assms by linarith
  have past: "slice series (Some (int s - 370)) (Some (- 360)) = ?past"
    using assms by (simp add: slice_def norm_index_def Let_def nat_diff_distrib' n)
  have len: "length ?past = ?T - s + 10"
    using assms by simp
  have "moving_average_forecast ?past (int 10)
        = Inr (map (\<lambda>j. np_mean (take 10 (drop j ?past))) [0..<length ?past - 10])"
    by (intro moving_average_forecast_nat) simp
  then have sm: "moving_average_forecast ?past 10
        = Inr (map (\<lambda>j. np_mean (take 10 (drop j ?past))) [0..<?T - s])"
    unfolding len by simp
  have win: "take 10 (drop j ?past) = map (\<lambda>t. series ! t) [s + j - 370..<s + j - 360]"
    if "j < ?T - s" for j
    using that assms by (intro nth_equalityI) (simp_all add: ac_simps)
  have "map (\<lambda>j. np_mean (take 10 (drop j ?past))) [0..<?T - s]
        = map (\<lambda>j. np_mean (map (\<lambda>t. series ! t) [s + j - 370..<s + j - 360])) [0..<?T - s]"
  proof (rule map_cong [OF refl])
    fix j
    assume "j \<in> set [0..<?T - s]"
    then have "j < ?T - s" by simp
    then show "np_mean (take 10 (drop j ?past))
               = np_mean (map (\<lambda>t. series ! t) [s + j - 370..<s + j - 360])"
      by (simp only: win)
  qed
  with sm have sm': "moving_average_forecast ?past 10
        = Inr (map (\<lambda>j. np_mean (map (\<lambda>t. series ! t) [s + j - 370..<s + j - 360]))
                   [0..<?T - s])"
    by (simp only:)
  have "map2 vadd (map (\<lambda>j. np_mean (map (\<lambda>t. series ! t) [s + j - 370..<s + j - 360]))
                       [0..<?T - s])
                  (map ?avg [0..<?T - s])
        = map (\<lambda>i. vadd (np_mean (map (\<lambda>t. series ! t) [s + i - 370..<s + i - 360])) (?avg i))
              [0..<?T - s]"
    by (intro nth_equalityI) simp_all
  then have "np_binop vadd (map (\<lambda>j. np_mean (map (\<lambda>t. series ! t) [s + j - 370..<s + j - 360]))
                       [0..<?T - s])
                  (map ?avg [0..<?T - s])
        = Inr (map (\<lambda>i. vadd (np_mean (map (\<lambda>t. series ! t) [s + i - 370..<s + i - 360])) (?avg i))
              [0..<?T - s])"
    by (simp add: np_binop_def)
  with dma past sm' show ?thesis
    by (simp add: diff_moving_avg_plus_smooth_past_def)
qed

section \<open>Facts about the generator\<close>

lemma length_randn: "length (fst (randn lib n g)) = n"
proof (induction n arbitrary: g)
  case 0
  show ?case by simp
next
  case (Suc n)
  obtain x g1 where draw: "gauss lib g = (x, g1)"
    by (cases "gauss lib g")
  obtain xs g2 where rest: "randn lib n g1 = (xs, g2)"
    by (cases "randn lib n g1")
  from Suc.IH [of g1] rest have "length xs = n" by simp
  with draw rest show ?case by simp
qed

lemma noise_Some:
  "noise lib time noise_level (Some seed) w =
     (map (\<lambda>x. vmul (Val x) (Val noise_level))
          (fst (randn lib (length time) (seed_state lib seed))), w)"
  by (simp add: noise_def RandomState_def split: prod.splits)

lemma noise_None:
  "noise lib time noise_level None w =
     (map (\<lambda>x. vmul (Val x) (Val noise_level))
          (fst (randn lib (length time) (seed_state lib (entropy_pool w (entropy_used w))))),
      w\<lparr>entropy_used := Suc (entropy_used w)\<rparr>)"
  by (simp add: noise_def RandomState_def split: prod.splits)





section \<open>Facts about rounding\<close>








section \<open>Facts about the dataset operations\<close>

lemma concat_chunks: "0 < n \<Longrightarrow> concat (chunks n xs) = xs"
proof (induction n xs rule: chunks.induct)
  case (1 n xs)
  show ?case
  proof (cases "xs = []")
    case True
    then show ?thesis by (subst chunks.simps) simp
  next
    case False
    with "1.prems" have "concat (chunks n (drop n xs)) = drop n xs"
      by (intro "1.IH") simp_all
    with False "1.prems" show ?thesis
      by (subst chunks.simps) simp
  qed
qed

lemma chunks_bounded:
  "b \<in> set (chunks n xs) \<Longrightarrow> b \<noteq> [] \<and> length b \<le> n"
proof (induction n xs rule: chunks.induct)
  case (1 n xs)
  show ?case
  proof (cases "n = 0 \<or> xs = []")
    case True
    with "1.prems" show ?thesis by (subst (asm) chunks.simps) simp
  next
    case False
    with "1.prems" have "b = take n xs \<or> b \<in> set (chunks n (drop n xs))"
      by (subst (asm) chunks.simps) simp
    then show ?thesis
    proof
      assume "b = take n xs"
      with False show ?thesis by simp
    next
      assume "b \<in> set (chunks n (drop n xs))"
      with False show ?thesis by (intro "1.IH") simp_all
    qed
  qed
qed

lemma chunks_single: "xs \<noteq> [] \<Longrightarrow> length xs \<le> n \<Longrightarrow> chunks n xs = [xs]"
proof -
  assume ne: "xs \<noteq> []" and le: "length xs \<le> n"
  then have n: "n \<noteq> 0" by (cases xs) auto
  have "chunks n [] = []" by (subst chunks.simps) simp
  with ne le n show ?thesis by (subst chunks.simps) simp
qed

lemma ds_flat_map_all:
  "(\<And>x. x \<in> set xs \<Longrightarrow> f x = Inr (g x)) \<Longrightarrow> ds_flat_map f xs = Inr (concat (map g xs))"
  by (induction xs) simp_all

lemma mset_remove_nth:
  "i < length buf \<Longrightarrow> add_mset (buf ! i) (mset (take i buf @ drop (Suc i) buf)) = mset buf"
proof -
  assume i: "i < length buf"
  then have "buf = take i buf @ buf ! i # drop (Suc i) buf"
    by (simp add: id_take_nth_drop)
  then have "mset buf = mset (take i buf @ buf ! i # drop (Suc i) buf)"
    by simp
  then show ?thesis by simp
qed

lemma mset_replace_nth:
  "i < length buf \<Longrightarrow> add_mset (buf ! i) (mset (buf[i := x])) = add_mset x (mset buf)"
proof -
  assume i: "i < length buf"
  then have "buf[i := x] = take i buf @ x # drop (Suc i) buf"
    by (simp add: upd_conv_take_nth_drop)
  then have "add_mset (buf ! i) (mset (buf[i := x]))
             = add_mset x (add_mset (buf ! i) (mset (take i buf @ drop (Suc i) buf)))"
    by simp
  with i show ?thesis by (simp only: mset_remove_nth)
qed

lemma mset_shuffle_run:
  "(buf = [] \<Longrightarrow> rest = []) \<Longrightarrow> mset (shuffle_run pick k buf rest) = mset buf + mset rest"
proof (induction pick k buf rest rule: shuffle_run.induct)
  case (1 pick k buf rest)
  show ?case
  proof (cases "buf = []")
    case True
    with "1.prems" show ?thesis by (subst shuffle_run.simps) simp
  next
    case False
    define i where "i = pick k mod length buf"
    with False have i: "i < length buf" by simp
    show ?thesis
    proof (cases rest)
      case Nil
      have "mset (shuffle_run pick (Suc k) (take i buf @ drop (Suc i) buf) [])
            = mset (take i buf @ drop (Suc i) buf) + mset []"
        using False Nil i_def by (intro "1.IH"(1)) simp_all
      then have "mset (shuffle_run pick k buf rest)
                 = add_mset (buf ! i) (mset (take i buf @ drop (Suc i) buf))"
        using False Nil by (subst shuffle_run.simps) (simp add: i_def Let_def)
      with i Nil show ?thesis by (simp only: mset_remove_nth) simp
    next
      case (Cons x xs)
      have "mset (shuffle_run pick (Suc k) (buf[i := x]) xs) = mset (buf[i := x]) + mset xs"
        using False Cons i_def by (intro "1.IH"(2)) simp_all
      then have "mset (shuffle_run pick k buf rest)
                 = add_mset (buf ! i) (mset (buf[i := x])) + mset xs"
        using False Cons by (subst shuffle_run.simps) (simp add: i_def Let_def)
      with i Cons show ?thesis by (simp only: mset_replace_nth) simp
    qed
  qed
qed

lemma mset_ds_shuffle:
  "0 < b \<Longrightarrow> \<exists>ys. ds_shuffle pick b ds = Inr ys \<and> mset ys = mset ds"
proof -
  assume b: "0 < b"
  have "take (nat b) ds = [] \<Longrightarrow> drop (nat b) ds = []"
    using b by (cases ds) simp_all
  then have "mset (shuffle_run pick 0 (take (nat b) ds) (drop (nat b) ds))
             = mset (take (nat b) ds) + mset (drop (nat b) ds)"
    by (rule mset_shuffle_run)
  also have "\<dots> = mset ds"
    by (metis append_take_drop_id mset_append)
  finally show ?thesis
    using b by (simp add: ds_shuffle_def)
qed

lemma ds_window_nat:
  "ds_window (int w + 1) ds = Inr (map (\<lambda>j. take (Suc w) (drop j ds)) [0..<length ds - w])"
proof -
  have n: "nat (int w + 1) = Suc w" by linarith
  have p: "\<not> int w + 1 \<le> 0" by linarith
  show ?thesis
    unfolding ds_window_def n using p by (simp del: take_Suc)
qed

lemma input_target_of_window:
  assumes "j < length series - w"
  shows "(slice (take (Suc w) (drop j (expand_dims series))) None (Some (- 1)),
          slice (take (Suc w) (drop j (expand_dims series))) (Some 1) None)
         = (expand_dims (take w (drop j series)), expand_dims (take w (drop (Suc j) series)))"
proof -
  let ?win = "take (Suc w) (drop j (expand_dims series))"
  from assms have len: "length ?win = Suc w"
    by (simp add: expand_dims_def del: take_Suc)
  have "slice ?win None (Some (- 1)) = take (length ?win - 1) ?win"
    using slice_until_neg [of 1 ?win] by simp
  also have "\<dots> = take w (drop j (expand_dims series))"
    unfolding len by (simp add: min_def del: take_Suc)
  also have "\<dots> = expand_dims (take w (drop j series))"
    by (simp add: expand_dims_def take_map drop_map)
  finally have a: "slice ?win None (Some (- 1)) = expand_dims (take w (drop j series))" .
  have "slice ?win (Some 1) None = drop 1 ?win"
    using slice_from [of 1 ?win] by simp
  also have "\<dots> = take w (drop (Suc j) (expand_dims series))"
    by (simp add: drop_take del: take_Suc)
  also have "\<dots> = expand_dims (take w (drop (Suc j) series))"
    by (simp add: expand_dims_def take_map drop_map)
  finally have b: "slice ?win (Some 1) None = expand_dims (take w (drop (Suc j) series))" .
  from a b show ?thesis by simp
qed

lemma windowed_dataset_nat:
  assumes "0 < batch_size" and "0 < shuffle_buffer"
  shows "\<exists>batches. windowed_dataset pick series (int w) batch_size shuffle_buffer = Inr batches
           \<and> mset (concat batches)
               = mset (map (\<lambda>j. (expand_dims (take w (drop j series)),
                                  expand_dims (take w (drop (Suc j) series))))
                           [0..<length series - w])
           \<and> (\<forall>b\<in>set batches. b \<noteq> [] \<and> int (length b) \<le> batch_size)"
proof -
  let ?es = "expand_dims series"
  let ?W = "map (\<lambda>j. take (Suc w) (drop j ?es)) [0..<length series - w]"
  let ?pair = "\<lambda>window. (slice window None (Some (- 1)), slice window (Some 1) None)"
  have "length ?es = length series"
    by (simp add: expand_dims_def)
  then have win: "ds_window (int w + 1) (from_tensor_slices ?es) = Inr ?W"
    by (simp only: ds_window_nat from_tensor_slices_def)
  have "ds_batch (int w + 1) window = Inr [window]" if "window \<in> set ?W" for window
  proof -
    from that obtain j where j: "j < length series - w"
      and window: "window = take (Suc w) (drop j ?es)" by auto
    from j have "length window = Suc w"
      by (simp add: window expand_dims_def del: take_Suc)
    then have "chunks (Suc w) window = [window]"
      by (intro chunks_single) auto
    then show ?thesis
      by (simp add: ds_batch_def nat_add_distrib)
  qed
  then have "ds_flat_map (\<lambda>window. ds_batch (int w + 1) window) ?W
             = Inr (concat (map (\<lambda>window. [window]) ?W))"
    by (rule ds_flat_map_all)
  moreover have "concat (map (\<lambda>window. [window]) xs) = xs" for xs :: "'a list list list"
    by (induction xs) simp_all
  ultimately have flat: "ds_flat_map (\<lambda>window. ds_batch (int w + 1) window) ?W = Inr ?W"
    by (simp only:)
  from mset_ds_shuffle [OF assms(2)]
  obtain ys where sh: "ds_shuffle pick shuffle_buffer ?W = Inr ys" and perm: "mset ys = mset ?W"
    by blast
  let ?batches = "chunks (nat batch_size) (map ?pair ys)"
  have bt: "ds_batch batch_size (map ?pair ys) = Inr ?batches"
    using assms(1) by (simp add: ds_batch_def)
  have ret: "windowed_dataset pick series (int w) batch_size shuffle_buffer = Inr ?batches"
    by (simp only: windowed_dataset_def Let_def win flat sh bt prefetch_def sum.case)
  have "mset (concat ?batches) = mset (map ?pair ys)"
    using assms(1) by (simp add: concat_chunks)
  also have "\<dots> = image_mset ?pair (mset ys)"
    by simp
  also have "\<dots> = mset (map ?pair ?W)"
    by (simp only: perm mset_map)
  also have "map ?pair ?W
             = map (\<lambda>j. (expand_dims (take w (drop j series)),
                          expand_dims (take w (drop (Suc j) series))))
                   [0..<length series - w]"
    by (simp only: map_map comp_def) (rule map_cong [OF refl], simp add: input_target_of_window)
  finally have pairs: "mset (concat ?batches)
      = mset (map (\<lambda>j. (expand_dims (take w (drop j series)),
                         expand_dims (take w (drop (Suc j) series))))
                  [0..<length series - w])" .
  have bound: "\<forall>b\<in>set ?batches. b \<noteq> [] \<and> int (length b) \<le> batch_size"
  proof
    fix b
    assume "b \<in> set ?batches"
    then have "b \<noteq> [] \<and> length b \<le> nat batch_size"
      by (rule chunks_bounded)
    with assms(1) show "b \<noteq> [] \<and> int (length b) \<le> batch_size"
      by linarith
  qed
  from ret pairs bound show ?thesis by blast
qed

lemma windowed_dataset_example:
  "windowed_dataset (\<lambda>k. 3 * k + 1) [10, 11, 12, 13, 14, 15 :: int] 2 3 2
   = Inr [[([[11], [12]], [[12], [13]]), ([[10], [11]], [[11], [12]]),
           ([[12], [13]], [[13], [14]])],
          [([[13], [14]], [[14], [15]])]]"
  by code_simp

section \<open>Claims\<close>

text \<open>
  C1. For a window size \<open>w > 0\<close> the moving-average forecast returns (it does not raise) an
  array whose entry \<open>i\<close> is the mean of the full-length window \<open>series[i : i+w]\<close>, for every
  \<open>i\<close> below \<open>N - w\<close>; it has exactly \<open>N - w\<close> entries when \<open>w < N\<close> and is empty when
  \<open>w \<ge> N\<close>. On \<open>[0, ..., 9]\<close> with \<open>w = 3\<close> it is \<open>[1, ..., 7]\<close>.
\<close>

theorem moving_average_forecast_windows:
  assumes "0 < w"
  shows "\<exists>forecast. moving_average_forecast series w = Inr forecast
           \<and> (w < int (length series) \<longrightarrow> int (length forecast) = int (length series) - w)
           \<and> (int (length series) \<le> w \<longrightarrow> forecast = [])
           \<and> (\<forall>i. int i < int (length series) - w \<longrightarrow>
                 slice series (Some (int i)) (Some (int i + w)) = take (nat w) (drop i series)
                 \<and> int (length (take (nat w) (drop i series))) = w
                 \<and> forecast ! i = np_mean (take (nat w) (drop i series)))
           \<and> moving_average_forecast (map Val [0, 1, 2, 3, 4, 5, 6, 7, 8, 9]) 3
               = Inr (map Val [1, 2, 3, 4, 5, 6, 7])"
proof -
  let ?n = "int (length series)"
  let ?f = "map (\<lambda>time. np_mean (slice series (Some time) (Some (time + w))))
                (py_range (?n - w))"
  have ret: "moving_average_forecast series w = Inr ?f"
    by (rule moving_average_forecast_map)
  have len: "w < ?n \<longrightarrow> int (length ?f) = ?n - w"
    by (simp add: length_py_range)
  have empty: "?n \<le> w \<longrightarrow> ?f = []"
    by (simp add: py_range_def)
  have entries: "slice series (Some (int i)) (Some (int i + w)) = take (nat w) (drop i series)
                 \<and> int (length (take (nat w) (drop i series))) = w
                 \<and> ?f ! i = np_mean (take (nat w) (drop i series))"
    if "int i < ?n - w" for i
  proof -
    from that assms have i: "i < nat (?n - w)" and fit: "int i + w \<le> ?n" by simp_all
    have sl: "slice series (Some (int i)) (Some (int i + w)) = take (nat w) (drop i series)"
      using assms fit by (simp add: slice_window)
    have ln: "int (length (take (nat w) (drop i series))) = w"
      using assms fit by simp
    have "?f ! i = np_mean (slice series (Some (int i)) (Some (int i + w)))"
      using i by (simp add: length_py_range nth_py_range)
    with sl ln show ?thesis by simp
  qed
  have scenario: "moving_average_forecast (map Val [0, 1, 2, 3, 4, 5, 6, 7, 8, 9]) 3
                    = Inr (map Val [1, 2, 3, 4, 5, 6, 7])"
    by (simp add: moving_average_forecast_map py_range_def slice_def norm_index_def
        np_mean_def np_sum_def upt_rec)
  from ret len empty entries scenario show ?thesis by blast
qed

theorem moving_average_forecast_windows_witness:
  "(0::int) < 3
   \<and> moving_average_forecast (map Val [0, 1, 2, 3, 4, 5, 6, 7, 8, 9]) 3
       = Inr (map Val [1, 2, 3, 4, 5, 6, 7])"
proof -
  have h: "(0::int) < 3" by simp
  from moving_average_forecast_windows [OF h, of "map Val [0, 1, 2, 3, 4, 5, 6, 7, 8, 9]"]
  have "moving_average_forecast (map Val [0, 1, 2, 3, 4, 5, 6, 7, 8, 9]) 3
          = Inr (map Val [1, 2, 3, 4, 5, 6, 7])"
    by blast
  with h show ?thesis by blast
qed

text \<open>
  C2. In the run of the script (1461 samples, split at 1000, period 365, window 50) the
  forecast \<open>diff_moving_avg_plus_past\<close> has 461 entries, one per validation index, and its
  entry \<open>i\<close> is \<open>series[1000 + i - 365]\<close> plus the mean of the 50 differences
  \<open>series[t] - series[t - 365]\<close> for \<open>t\<close> from \<open>1000 + i - 50\<close> up to, not including,
  \<open>1000 + i\<close>.
\<close>

theorem run_diff_moving_avg_plus_past_alignment:
  assumes "length series = 1461"
  shows "\<exists>forecast. run_diff_moving_avg_plus_past series = Inr forecast
           \<and> length forecast = 1461 - 1000
           \<and> (\<forall>i<1461 - 1000.
                 forecast ! i =
                   vadd (series ! (1000 + i - 365))
                        (np_mean (map (\<lambda>t. vsub (series ! t) (series ! (t - 365)))
                                      [1000 + i - 50..<1000 + i])))"
proof -
  have "diff_moving_avg_plus_past series (int 1000) (int 365) (int 50) =
          Inr (map (\<lambda>i. vadd (series ! (1000 + i - 365))
                             (np_mean (map (\<lambda>t. vsub (series ! t) (series ! (t - 365)))
                                           [1000 + i - 50..<1000 + i])))
                   [0..<length series - 1000])"
    by (rule diff_moving_avg_plus_past_nat) (simp_all add: assms)
  then show ?thesis
    by (simp add: run_diff_moving_avg_plus_past_def assms)
qed

theorem run_diff_moving_avg_plus_past_alignment_witness:
  "length (np_arange 1461) = 1461
   \<and> run_diff_moving_avg_plus_past (np_arange 1461)
       = Inr (map (\<lambda>i. Val (real (1000 + i))) [0..<461])"
proof -
  have len: "length (np_arange 1461) = 1461"
    by (simp add: np_arange_def)
  from run_diff_moving_avg_plus_past_alignment [OF len]
  obtain forecast where ret: "run_diff_moving_avg_plus_past (np_arange 1461) = Inr forecast"
    and n: "length forecast = 1461 - 1000"
    and entry: "\<forall>i<1461 - 1000. forecast ! i =
                   vadd (np_arange 1461 ! (1000 + i - 365))
                        (np_mean (map (\<lambda>t. vsub (np_arange 1461 ! t) (np_arange 1461 ! (t - 365)))
                                      [1000 + i - 50..<1000 + i]))"
    by blast
  have "forecast = map (\<lambda>i. Val (real (1000 + i))) [0..<461]"
  proof (rule nth_equalityI)
    show "length forecast = length (map (\<lambda>i. Val (real (1000 + i))) [0..<461])"
      using n by simp
  next
    fix i
    assume "i < length forecast"
    with n have i: "i < 461" by simp
    have diffs: "map (\<lambda>t. vsub (np_arange 1461 ! t) (np_arange 1461 ! (t - 365)))
                     [1000 + i - 50..<1000 + i]
                 = map (\<lambda>t. Val 365) [1000 + i - 50..<1000 + i]"
      using i by (intro map_cong refl) (auto simp add: np_arange_def of_nat_diff)
    have "forecast ! i =
            vadd (np_arange 1461 ! (1000 + i - 365))
                 (np_mean (map (\<lambda>t. vsub (np_arange 1461 ! t) (np_arange 1461 ! (t - 365)))
                               [1000 + i - 50..<1000 + i]))"
      using entry i by simp
    also have "\<dots> = vadd (np_arange 1461 ! (1000 + i - 365)) (Val 365)"
      by (simp only: diffs) (simp add: np_mean_const)
    also have "\<dots> = Val (real (1000 + i))"
      using i by (simp add: np_arange_def of_nat_diff)
    finally show "forecast ! i = map (\<lambda>i. Val (real (1000 + i))) [0..<461] ! i"
      using i by simp
  qed
  with ret len show ?thesis by simp
qed

text \<open>
  C4. For a split point with \<open>0 < split < T\<close> the naive forecast has \<open>T - split\<close> entries,
  its entry \<open>i\<close> is \<open>series[split - 1 + i]\<close>, and its first entry is \<open>series[split - 1]\<close>.
\<close>

theorem naive_forecast_lag_one:
  assumes "0 < split" and "split < int (length series)"
  shows "\<exists>forecast. naive_forecast series split = Inr forecast
           \<and> int (length forecast) = int (length series) - split
           \<and> (\<forall>i. int i < int (length series) - split \<longrightarrow>
                 forecast ! i = series ! nat (split - 1 + int i))
           \<and> forecast ! 0 = series ! nat (split - 1)"
proof -
  obtain s where s: "split = int s" and pos: "0 < s" and lt: "s < length series"
    using assms by (metis nat_0_le nat_less_iff order_less_imp_le zero_less_nat_eq)
  let ?f = "take (length series - s) (drop (s - 1) series)"
  have ret: "naive_forecast series split = Inr ?f"
    unfolding s using pos lt by (rule naive_forecast_nat)
  have len: "int (length ?f) = int (length series) - split"
    using pos lt by (simp add: s)
  have entry: "?f ! i = series ! nat (split - 1 + int i)"
    if "int i < int (length series) - split" for i
  proof -
    from that have i: "i < length series - s" by (simp add: s)
    have "nat (split - 1 + int i) = s - 1 + i"
      using pos by (simp add: s nat_add_distrib nat_diff_distrib')
    with i pos lt show ?thesis by simp
  qed
  from entry [of 0] assms have first: "?f ! 0 = series ! nat (split - 1)" by simp
  from ret len entry first show ?thesis by blast
qed

theorem naive_forecast_lag_one_witness:
  "(0::int) < 2 \<and> (2::int) < int (length [Val 5, Val 6, Val 7, Val 8])
   \<and> naive_forecast [Val 5, Val 6, Val 7, Val 8] 2 = Inr [Val 6, Val 7]"
proof -
  have h1: "(0::int) < 2" and h2: "(2::int) < int (length [Val 5, Val 6, Val 7, Val 8])"
    by simp_all
  from naive_forecast_lag_one [OF h1 h2]
  obtain forecast where ret: "naive_forecast [Val 5, Val 6, Val 7, Val 8] 2 = Inr forecast"
    and n: "int (length forecast) = int (length [Val 5, Val 6, Val 7, Val 8]) - 2"
    and entry: "\<forall>i. int i < int (length [Val 5, Val 6, Val 7, Val 8]) - 2 \<longrightarrow>
                 forecast ! i = [Val 5, Val 6, Val 7, Val 8] ! nat (2 - 1 + int i)"
    by blast
  from n have n2: "length forecast = 2" by simp
  from entry [rule_format, of 0] entry [rule_format, of 1]
  have "forecast ! 0 = Val 6" and "forecast ! 1 = Val 7" by simp_all
  with n2 have "forecast = [Val 6, Val 7]"
    by (intro nth_equalityI) (auto simp add: less_Suc_eq numeral_2_eq_2)
  with ret h1 h2 show ?thesis by simp
qed








text \<open>
  C7. With the window size 1 the moving-average forecast returns the series without its
  last sample, entry \<open>i\<close> being \<open>series[i]\<close>; its part from index \<open>split - 1\<close> on, cut to
  \<open>T - split\<close> entries, is the naive forecast.
\<close>

theorem moving_average_window_one_is_naive:
  assumes "0 < split" and "split < int (length series)"
  shows "\<exists>moving_avg naive.
           moving_average_forecast series 1 = Inr moving_avg
           \<and> naive_forecast series split = Inr naive
           \<and> length moving_avg = length series - 1
           \<and> (\<forall>i<length series - 1. moving_avg ! i = series ! i)
           \<and> take (nat (int (length series) - split)) (slice moving_avg (Some (split - 1)) None)
               = naive"
proof -
  obtain s where s: "split = int s" and pos: "0 < s" and lt: "s < length series"
    using assms by (metis nat_0_le nat_less_iff order_less_imp_le zero_less_nat_eq)
  let ?m = "butlast series"
  let ?n = "take (length series - s) (drop (s - 1) series)"
  have m: "moving_average_forecast series 1 = Inr ?m"
    by (rule moving_average_forecast_one)
  have n: "naive_forecast series split = Inr ?n"
    unfolding s using pos lt by (rule naive_forecast_nat)
  have len: "length ?m = length series - 1" by simp
  have entry: "\<forall>i<length series - 1. ?m ! i = series ! i"
    by (simp add: nth_butlast)
  have "slice ?m (Some (split - 1)) None = drop (s - 1) ?m"
    using pos by (simp add: s slice_from nat_diff_distrib')
  moreover have "drop (s - 1) ?m = ?n"
    using pos lt by (simp add: butlast_conv_take drop_take)
  moreover have "nat (int (length series) - split) = length series - s"
    by (simp add: s nat_diff_distrib')
  ultimately have "take (nat (int (length series) - split)) (slice ?m (Some (split - 1)) None)
                   = ?n"
    by simp
  with m n len entry show ?thesis by blast
qed

theorem moving_average_window_one_is_naive_witness:
  "(0::int) < 2 \<and> (2::int) < int (length [Val 5, Val 6, Val 7, Val 8])
   \<and> moving_average_forecast [Val 5, Val 6, Val 7, Val 8] 1 = Inr [Val 5, Val 6, Val 7]
   \<and> naive_forecast [Val 5, Val 6, Val 7, Val 8] 2 = Inr [Val 6, Val 7]
   \<and> slice [Val 5, Val 6, Val 7] (Some 1) None = [Val 6, Val 7]"
proof -
  have h1: "(0::int) < 2" and h2: "(2::int) < int (length [Val 5, Val 6, Val 7, Val 8])"
    by simp_all
  from moving_average_window_one_is_naive [OF h1 h2]
  obtain moving_avg naive
    where m: "moving_average_forecast [Val 5, Val 6, Val 7, Val 8] 1 = Inr moving_avg"
      and n: "naive_forecast [Val 5, Val 6, Val 7, Val 8] 2 = Inr naive"
      and len: "length moving_avg = length [Val 5, Val 6, Val 7, Val 8] - 1"
      and entry: "\<forall>i<length [Val 5, Val 6, Val 7, Val 8] - 1.
                    moving_avg ! i = [Val 5, Val 6, Val 7, Val 8] ! i"
      and eq: "take (nat (int (length [Val 5, Val 6, Val 7, Val 8]) - 2))
                 (slice moving_avg (Some (2 - 1)) None) = naive"
    by blast
  from entry have "moving_avg ! 0 = Val 5" and "moving_avg ! 1 = Val 6" and "moving_avg ! 2 = Val 7"
    by simp_all
  with len have mv: "moving_avg = [Val 5, Val 6, Val 7]"
    by (intro nth_equalityI) (auto simp add: less_Suc_eq numeral_3_eq_3 numeral_2_eq_2)
  have sl: "slice [Val 5, Val 6, Val 7] (Some 1) None = [Val 6, Val 7]"
    by (simp add: slice_def norm_index_def)
  from eq have "naive = [Val 6, Val 7]"
    by (simp add: mv sl)
  with m n mv sl h1 h2 show ?thesis by simp
qed

text \<open>
  C8. Two calls of \<open>noise\<close> with the same time axis, noise level and seed return the same
  sequence, of \<open>len(time)\<close> entries, whatever the state of the process at each call; in
  particular a second call made right after the first returns what the first returned.
\<close>

theorem noise_seed_deterministic:
  "fst (noise lib time noise_level (Some seed) w1)
     = fst (noise lib time noise_level (Some seed) w2)
   \<and> length (fst (noise lib time noise_level (Some seed) w1)) = length time
   \<and> (case noise lib time noise_level (Some seed) w1 of
         (first, w) \<Rightarrow> fst (noise lib time noise_level (Some seed) w) = first)"
proof -
  let ?samples = "fst (randn lib (length time) (seed_state lib seed))"
  let ?out = "map (\<lambda>x. vmul (Val x) (Val noise_level)) ?samples"
  have call: "noise lib time noise_level (Some seed) w = (?out, w)" for w
    by (rule noise_Some)
  have same: "fst (noise lib time noise_level (Some seed) w1)
              = fst (noise lib time noise_level (Some seed) w2)"
    by (simp only: call fst_conv)
  have len: "length (fst (noise lib time noise_level (Some seed) w1)) = length time"
    by (simp only: call fst_conv length_map length_randn)
  have again: "(case noise lib time noise_level (Some seed) w1 of
                  (first, w) \<Rightarrow> fst (noise lib time noise_level (Some seed) w) = first)"
    by (simp only: call fst_conv prod.case)
  from same len again show ?thesis by blast
qed

theorem noise_seed_deterministic_witness:
  "fst (noise counting_rng [Val 0, Val 1, Val 2] 2 (Some 5) idle_world)
     = [Val 10, Val 12, Val 14]
   \<and> fst (noise counting_rng [Val 0, Val 1, Val 2] 2 (Some 5)
            (snd (noise counting_rng [Val 0, Val 1, Val 2] 2 None idle_world)))
     = [Val 10, Val 12, Val 14]"
proof -
  have first: "fst (noise counting_rng [Val 0, Val 1, Val 2] 2 (Some 5) idle_world)
               = [Val 10, Val 12, Val 14]"
    by (simp add: noise_Some counting_rng_def numeral_3_eq_3)
  from noise_seed_deterministic [of counting_rng "[Val 0, Val 1, Val 2]" 2 5
      "snd (noise counting_rng [Val 0, Val 1, Val 2] 2 None idle_world)" idle_world]
  have "fst (noise counting_rng [Val 0, Val 1, Val 2] 2 (Some 5)
              (snd (noise counting_rng [Val 0, Val 1, Val 2] 2 None idle_world)))
        = fst (noise counting_rng [Val 0, Val 1, Val 2] 2 (Some 5) idle_world)"
    by blast
  with first show ?thesis by (simp only:)
qed

text \<open>
  Without a seed the two calls take different seeds from the entropy source, and with the
  example generator they return different sequences.
\<close>

lemma noise_unseeded_example:
  "fst (noise counting_rng [Val 0] 1 None idle_world) = [Val 0]
   \<and> fst (noise counting_rng [Val 0] 1 None
            (snd (noise counting_rng [Val 0] 1 None idle_world))) = [Val 1]"
  by (simp add: noise_None counting_rng_def idle_world_def)

text \<open>
  C9. For a window size \<open>w \<ge> 0\<close> and positive batch and buffer sizes, the pairs of the
  batches of \<open>windowed_dataset\<close> are, up to the order the shuffle gives them, exactly the
  pairs \<open>(series[j : j+w], series[j+1 : j+w+1])\<close> for the start indices \<open>j\<close> from 0 up to,
  not including, \<open>N - w\<close>, one pair per start index, every sample wrapped into a vector of
  length one. Both slices of every pair have all \<open>w\<close> entries, so no partial window is
  emitted, and no batch is empty or longer than the batch size.
\<close>

theorem windowed_dataset_pairs:
  assumes "0 \<le> window_size" and "0 < batch_size" and "0 < shuffle_buffer"
  shows "\<exists>batches.
           windowed_dataset pick series window_size batch_size shuffle_buffer = Inr batches
           \<and> mset (concat batches)
               = mset (map (\<lambda>j. (expand_dims (slice series (Some (int j))
                                                   (Some (int j + window_size))),
                                  expand_dims (slice series (Some (int j + 1))
                                                   (Some (int j + window_size + 1)))))
                           [0..<length series - nat window_size])
           \<and> (\<forall>j<length series - nat window_size.
                 int (length (slice series (Some (int j)) (Some (int j + window_size))))
                   = window_size
                 \<and> int (length (slice series (Some (int j + 1))
                                      (Some (int j + window_size + 1))))
                   = window_size)
           \<and> (\<forall>b\<in>set batches. b \<noteq> [] \<and> int (length b) \<le> batch_size)"
proof -
  obtain w where w: "window_size = int w"
    using assms(1) by (metis nat_0_le)
  have inp: "slice series (Some (int j)) (Some (int j + int w)) = take w (drop j series)"
    if "j < length series - w" for j
    using that slice_window [of "int w" j series] by simp
  have tgt: "slice series (Some (int j + 1)) (Some (int j + int w + 1))
             = take w (drop (Suc j) series)"
    if "j < length series - w" for j
  proof -
    have "int j + 1 = int (Suc j)" and "int j + int w + 1 = int (Suc j) + int w"
      by simp_all
    then show ?thesis
      using that slice_window [of "int w" "Suc j" series] by (simp only:) simp
  qed
  from windowed_dataset_nat [OF assms(2,3), of pick series w]
  obtain batches
    where ret: "windowed_dataset pick series (int w) batch_size shuffle_buffer = Inr batches"
      and pairs: "mset (concat batches)
                  = mset (map (\<lambda>j. (expand_dims (take w (drop j series)),
                                     expand_dims (take w (drop (Suc j) series))))
                              [0..<length series - w])"
      and bound: "\<forall>b\<in>set batches. b \<noteq> [] \<and> int (length b) \<le> batch_size"
    by blast
  have "map (\<lambda>j. (expand_dims (take w (drop j series)),
                   expand_dims (take w (drop (Suc j) series))))
            [0..<length series - w]
        = map (\<lambda>j. (expand_dims (slice series (Some (int j)) (Some (int j + int w))),
                     expand_dims (slice series (Some (int j + 1)) (Some (int j + int w + 1)))))
              [0..<length series - w]"
    by (rule map_cong [OF refl]) (simp add: inp tgt)
  with pairs have pairs': "mset (concat batches)
        = mset (map (\<lambda>j. (expand_dims (slice series (Some (int j)) (Some (int j + int w))),
                     expand_dims (slice series (Some (int j + 1)) (Some (int j + int w + 1)))))
              [0..<length series - w])"
    by (simp only:)
  have full: "\<forall>j<length series - w.
                 int (length (slice series (Some (int j)) (Some (int j + int w)))) = int w
                 \<and> int (length (slice series (Some (int j + 1)) (Some (int j + int w + 1))))
                   = int w"
  proof (intro allI impI)
    fix j
    assume j: "j < length series - w"
    then show "int (length (slice series (Some (int j)) (Some (int j + int w)))) = int w
               \<and> int (length (slice series (Some (int j + 1)) (Some (int j + int w + 1))))
                   = int w"
      by (simp only: inp [OF j] tgt [OF j]) simp
  qed
  from ret pairs' full bound show ?thesis
    unfolding w by (simp only: nat_int) blast
qed

theorem windowed_dataset_pairs_witness:
  "(0::int) \<le> 2 \<and> (0::int) < 3 \<and> (0::int) < 2
   \<and> windowed_dataset (\<lambda>k. 3 * k + 1) [10, 11, 12, 13, 14, 15 :: int] 2 3 2
       = Inr [[([[11], [12]], [[12], [13]]), ([[10], [11]], [[11], [12]]),
               ([[12], [13]], [[13], [14]])],
              [([[13], [14]], [[14], [15]])]]
   \<and> mset [([[11], [12]], [[12], [13]]), ([[10], [11]], [[11], [12]]),
            ([[12], [13]], [[13], [14]]), ([[13], [14]], [[14], [15 :: int]])]
       = mset [([[10], [11]], [[11], [12]]), ([[11], [12]], [[12], [13]]),
               ([[12], [13]], [[13], [14]]), ([[13], [14]], [[14], [15]])]"
proof -
  have h1: "(0::int) \<le> 2" and h2: "(0::int) < 3" and h3: "(0::int) < 2"
    by simp_all
  from windowed_dataset_pairs [OF h1 h2 h3, of "\<lambda>k. 3 * k + 1" "[10, 11, 12, 13, 14, 15 :: int]"]
  obtain batches
    where ret: "windowed_dataset (\<lambda>k. 3 * k + 1) [10, 11, 12, 13, 14, 15 :: int] 2 3 2
                = Inr batches"
      and pairs: "mset (concat batches)
               = mset (map (\<lambda>j. (expand_dims (slice [10, 11, 12, 13, 14, 15 :: int]
                                                 (Some (int j)) (Some (int j + 2))),
                                  expand_dims (slice [10, 11, 12, 13, 14, 15 :: int]
                                                 (Some (int j + 1)) (Some (int j + 2 + 1)))))
                           [0..<length [10, 11, 12, 13, 14, 15 :: int] - nat 2])"
    by blast
  from ret have b: "batches = [[([[11], [12]], [[12], [13]]), ([[10], [11]], [[11], [12]]),
               ([[12], [13]], [[13], [14]])],
              [([[13], [14]], [[14], [15]])]]"
    unfolding windowed_dataset_example by simp
  have "map (\<lambda>j. (expand_dims (slice [10, 11, 12, 13, 14, 15 :: int]
                                                 (Some (int j)) (Some (int j + 2))),
                                  expand_dims (slice [10, 11, 12, 13, 14, 15 :: int]
                                                 (Some (int j + 1)) (Some (int j + 2 + 1)))))
                           [0..<length [10, 11, 12, 13, 14, 15 :: int] - nat 2]
        = [([[10], [11]], [[11], [12]]), ([[11], [12]], [[12], [13]]),
               ([[12], [13]], [[13], [14]]), ([[13], [14]], [[14], [15]])]"
    by (simp add: upt_rec expand_dims_def slice_def norm_index_def)
  with pairs b have "mset [([[11], [12]], [[12], [13]]), ([[10], [11]], [[11], [12]]),
            ([[12], [13]], [[13], [14]]), ([[13], [14]], [[14], [15 :: int]])]
       = mset [([[10], [11]], [[11], [12]]), ([[11], [12]], [[12], [13]]),
               ([[12], [13]], [[13], [14]]), ([[13], [14]], [[14], [15]])]"
    by simp
  with h1 h2 h3 windowed_dataset_example show ?thesis by blast
qed

text \<open>
  C10. A call of \<open>noise\<close> leaves the global generator as it was and returns the same
  sequence whatever the state of the global generator; with a seed it changes nothing of the
  process state, and its result is the same after the global generator has been reseeded or
  has drawn samples.
\<close>

theorem noise_leaves_global_rng:
  "global_rng (snd (noise lib time noise_level seed w)) = global_rng w
   \<and> fst (noise lib time noise_level seed (w\<lparr>global_rng := g\<rparr>))
       = fst (noise lib time noise_level seed w)
   \<and> snd (noise lib time noise_level (Some s) w) = w
   \<and> fst (noise lib time noise_level (Some s) (np_random_seed lib s' w))
       = fst (noise lib time noise_level (Some s) w)
   \<and> fst (noise lib time noise_level (Some s) (snd (np_random_randn lib n w)))
       = fst (noise lib time noise_level (Some s) w)"
proof -
  have unchanged: "global_rng (snd (noise lib time noise_level seed w)) = global_rng w"
    by (cases seed) (simp_all add: noise_Some noise_None)
  have unread: "fst (noise lib time noise_level seed (w\<lparr>global_rng := g\<rparr>))
                = fst (noise lib time noise_level seed w)"
    by (cases seed) (simp_all add: noise_Some noise_None)
  have frame: "snd (noise lib time noise_level (Some s) w) = w"
    by (simp add: noise_Some)
  have reseeded: "fst (noise lib time noise_level (Some s) (np_random_seed lib s' w))
                  = fst (noise lib time noise_level (Some s) w)"
    by (simp add: noise_Some)
  have drawn: "fst (noise lib time noise_level (Some s) (snd (np_random_randn lib n w)))
               = fst (noise lib time noise_level (Some s) w)"
    by (simp add: noise_Some)
  from unchanged unread frame reseeded drawn show ?thesis by blast
qed

theorem noise_leaves_global_rng_witness:
  "global_rng (snd (noise counting_rng [Val 0, Val 1] 2 None idle_world)) = 7
   \<and> snd (noise counting_rng [Val 0, Val 1] 2 (Some 5) idle_world) = idle_world"
proof -
  have g: "global_rng idle_world = 7"
    by (simp add: idle_world_def)
  from noise_leaves_global_rng [of counting_rng "[Val 0, Val 1]" 2 None idle_world _ 5]
  have "global_rng (snd (noise counting_rng [Val 0, Val 1] 2 None idle_world))
          = global_rng idle_world"
    and "snd (noise counting_rng [Val 0, Val 1] 2 (Some 5) idle_world) = idle_world"
    by blast+
  with g show ?thesis by simp
qed

end
